theory Spec2Isabelle
  imports Main "HOL-Library.Word" "HOL-Library.Multiset"
begin

section \<open>Data model of \<open>main.cpp\<close>\<close>

text \<open>
  \<open>struct Task { int id; ... }\<close>. The field is called \<open>id\<close> in the source; it is
  \<open>task_id\<close> here because \<open>id\<close> is the identity function of HOL. Indices are
  \<open>int\<close>: the only arithmetic on them is the loop counter \<open>i++\<close> below
  \<open>numDigitsPie\<close>, which cannot overflow.
\<close>

record Task =
  task_id :: int

text \<open>
  \<open>class TaskList\<close>: a \<open>std::queue<Task>\<close> (head of the list is the front of the
  queue) and a \<open>std::mutex\<close>, modelled by its owner: \<open>None\<close> when free, \<open>Some i\<close>
  when worker \<open>i\<close> holds it.
\<close>

record TaskList =
  piQueue :: "Task list"
  queueMutex :: "nat option"

text \<open>
  \<open>class PieTable\<close>: a \<open>std::mutex\<close> and a \<open>std::unordered_map<int, unsigned int>\<close>.
\<close>

record PieTable =
  hashMutex :: "nat option"
  pieMap :: "int \<rightharpoonup> 32 word"

text \<open>
  What the source leaves undefined or throws: \<open>front()\<close> and \<open>pop()\<close> of an empty
  \<open>std::queue\<close> are undefined behaviour, \<open>new std::thread[n]\<close> with negative \<open>n\<close>
  throws \<open>std::bad_array_new_length\<close>.
\<close>

datatype fault = EmptyQueueAccess | BadArrayNewLength

section \<open>\<open>TaskList\<close>\<close>

definition push :: "Task \<Rightarrow> TaskList \<Rightarrow> TaskList" where
  "push task tq = tq\<lparr>piQueue := piQueue tq @ [task]\<rparr>"

text \<open>
  \<open>TaskList::lock()\<close> blocks while the mutex is held: \<open>None\<close> means that the
  caller has to wait, \<open>Some\<close> is the list with the mutex taken by \<open>who\<close>.
\<close>

definition TaskList_lock :: "nat \<Rightarrow> TaskList \<Rightarrow> TaskList option" where
  "TaskList_lock who tq =
     (if queueMutex tq = None then Some (tq\<lparr>queueMutex := Some who\<rparr>) else None)"

definition TaskList_unlock :: "TaskList \<Rightarrow> TaskList" where
  "TaskList_unlock tq = tq\<lparr>queueMutex := None\<rparr>"

definition isEmpty :: "TaskList \<Rightarrow> bool" where
  "isEmpty tq = (piQueue tq = [])"

definition getTask :: "TaskList \<Rightarrow> fault + Task" where
  "getTask tq = (case piQueue tq of [] \<Rightarrow> Inl EmptyQueueAccess | t # _ \<Rightarrow> Inr t)"

definition pop :: "TaskList \<Rightarrow> fault + TaskList" where
  "pop tq =
     (case piQueue tq of
        [] \<Rightarrow> Inl EmptyQueueAccess
      | _ # rest \<Rightarrow> Inr (tq\<lparr>piQueue := rest\<rparr>))"

text \<open>
  \<open>getPieDigit\<close> (line 268) has no return statement and no caller; it is left out.
\<close>

text \<open>
  Retrieving every task of a queue with the operations the class offers, as the
  worker loop does: test \<open>isEmpty\<close>, read the front with \<open>getTask\<close>, remove it with
  \<open>pop\<close>. The result is the sequence of tasks in the order of retrieval, and the
  queue that is left.
\<close>

function drain :: "TaskList \<Rightarrow> fault + Task list \<times> TaskList" where
  "drain tq =
     (if isEmpty tq then Inr ([], tq)
      else case getTask tq of
             Inl e \<Rightarrow> Inl e
           | Inr t \<Rightarrow>
               (case pop tq of
                  Inl e \<Rightarrow> Inl e
                | Inr tq' \<Rightarrow>
                    (case drain tq' of
                       Inl e \<Rightarrow> Inl e
                     | Inr (ts, tq'') \<Rightarrow> Inr (t # ts, tq''))))"
  by pat_completeness auto
termination
  by (relation "measure (\<lambda>tq. length (piQueue tq))")
     (auto simp: pop_def split: list.splits)

section \<open>\<open>PieTable\<close>\<close>

definition PieTable_lock :: "nat \<Rightarrow> PieTable \<Rightarrow> PieTable option" where
  "PieTable_lock who pt =
     (if hashMutex pt = None then Some (pt\<lparr>hashMutex := Some who\<rparr>) else None)"

definition PieTable_unlock :: "PieTable \<Rightarrow> PieTable" where
  "PieTable_unlock pt = pt\<lparr>hashMutex := None\<rparr>"

text \<open>
  \<open>pieMap.insert({ key, value })\<close>: \<open>std::unordered_map::insert\<close> adds the pair
  only when the map has no element with that key.
\<close>

definition insertValue :: "int \<Rightarrow> 32 word \<Rightarrow> PieTable \<Rightarrow> PieTable" where
  "insertValue key val pt =
     (case pieMap pt key of
        None \<Rightarrow> pt\<lparr>pieMap := (pieMap pt)(key \<mapsto> val)\<rparr>
      | Some _ \<Rightarrow> pt)"

text \<open>
  \<open>return pieMap[index]\<close>: \<open>operator[]\<close> adds a value-initialised element (0) when
  the key is absent and returns a reference to the element; the \<open>unsigned int\<close> is
  converted to the return type \<open>int\<close>. The result is the returned number and the
  table after the call.
\<close>

definition get :: "int \<Rightarrow> PieTable \<Rightarrow> int \<times> PieTable" where
  "get index pt =
     (case pieMap pt index of
        None \<Rightarrow> (sint (0 :: 32 word), pt\<lparr>pieMap := (pieMap pt)(index \<mapsto> 0)\<rparr>)
      | Some v \<Rightarrow> (sint v, pt))"

text \<open>
  The contract of the specification for the same operation, for comparison:
  \<open>get(index)\<close> fails with \<open>KeyNotFound\<close> if no entry exists for the index.
\<close>

datatype table_error = KeyNotFound int

definition get_spec :: "int \<Rightarrow> PieTable \<Rightarrow> table_error + int" where
  "get_spec index pt =
     (case pieMap pt index of None \<Rightarrow> Inl (KeyNotFound index) | Some v \<Rightarrow> Inr (sint v))"

text \<open>\<open>PieTable pieTable;\<close> (line 310): a free mutex and an empty map.\<close>

definition PieTable_init :: PieTable where
  "PieTable_init = \<lparr>hashMutex = None, pieMap = Map.empty\<rparr>"

text \<open>A sequence of \<open>insertValue\<close> calls, in the order of the list.\<close>

definition insert_all :: "(int \<times> 32 word) list \<Rightarrow> PieTable \<Rightarrow> PieTable" where
  "insert_all es pt = fold (\<lambda>(k, v). insertValue k v) es pt"

section \<open>Output\<close>

text \<open>\<open>std::cout << i\<close> for an \<open>int\<close>: the decimal numeral, with a sign if negative.\<close>

fun digits_of :: "nat \<Rightarrow> string" where
  "digits_of n =
     (if n < 10 then [''0123456789'' ! n]
      else digits_of (n div 10) @ [''0123456789'' ! (n mod 10)])"

definition show_int :: "int \<Rightarrow> string" where
  "show_int i = (if i < 0 then CHR ''-'' # digits_of (nat (- i)) else digits_of (nat i))"

definition newline :: char where
  "newline = CHR 0x0A"

section \<open>The worker threads\<close>

text \<open>
  A worker is the lambda \<open>threadFunction\<close> (lines 324 to 340); its state is the
  statement it is about to execute, with the local variables that are live there:
  \<open>taskTemp\<close> from line 331 on, \<open>pieIndex\<close> and \<open>pieNumber\<close> from line 335 on.
\<close>

datatype worker =
    AtWhile
  | AtPrint
  | AtLock
  | AtGetTask
  | AtPop Task
  | AtUnlock Task
  | AtCompute Task
  | AtTableLock int int
  | AtInsert int int
  | AtTableUnlock
  | Exited

record state =
  taskList :: TaskList
  pieTable :: PieTable
  cout :: string
  threads :: "worker list"

text \<open>
  \<open>Task::computePi\<close> calls \<open>computePiDigit(id)\<close>. The digit algorithm works in
  double precision; it is a parameter \<open>f\<close> of the model, a function from the index
  to the \<open>unsigned int\<close> it returns.
\<close>

definition computePi :: "(int \<Rightarrow> 32 word) \<Rightarrow> Task \<Rightarrow> 32 word" where
  "computePi f t = f (task_id t)"

definition set_thread :: "nat \<Rightarrow> worker \<Rightarrow> state \<Rightarrow> state" where
  "set_thread i w s = s\<lparr>threads := (threads s)[i := w]\<rparr>"

text \<open>
  One statement of worker \<open>i\<close>, each member function call taken as atomic. A worker
  that waits for a mutex, or has returned, leaves the state as it is.
  \<^item> line 327, \<open>while (!taskList.isEmpty())\<close>, is evaluated without the mutex;
  \<^item> lines 328 and 329 print the progress marker;
  \<^item> lines 330 to 333 take the queue's mutex, copy the front, pop it, release;
  \<^item> lines 334 and 335 compute: \<open>int pieNumber = taskTemp.computePi()\<close> converts
    the \<open>unsigned int\<close> to \<open>int\<close>;
  \<^item> lines 336 to 338 take the table's mutex, insert (converting \<open>pieNumber\<close> back
    to \<open>unsigned int\<close>), release.
\<close>

definition thread_step :: "(int \<Rightarrow> 32 word) \<Rightarrow> nat \<Rightarrow> state \<Rightarrow> fault + state" where
  "thread_step f i s =
     (if length (threads s) \<le> i then Inr s
      else case threads s ! i of
        AtWhile \<Rightarrow>
          Inr (set_thread i (if isEmpty (taskList s) then Exited else AtPrint) s)
      | AtPrint \<Rightarrow>
          Inr (set_thread i AtLock (s\<lparr>cout := cout s @ ''.''\<rparr>))
      | AtLock \<Rightarrow>
          (case TaskList_lock i (taskList s) of
             None \<Rightarrow> Inr s
           | Some tq \<Rightarrow> Inr (set_thread i AtGetTask (s\<lparr>taskList := tq\<rparr>)))
      | AtGetTask \<Rightarrow>
          (case getTask (taskList s) of
             Inl e \<Rightarrow> Inl e
           | Inr t \<Rightarrow> Inr (set_thread i (AtPop t) s))
      | AtPop t \<Rightarrow>
          (case pop (taskList s) of
             Inl e \<Rightarrow> Inl e
           | Inr tq \<Rightarrow> Inr (set_thread i (AtUnlock t) (s\<lparr>taskList := tq\<rparr>)))
      | AtUnlock t \<Rightarrow>
          Inr (set_thread i (AtCompute t) (s\<lparr>taskList := TaskList_unlock (taskList s)\<rparr>))
      | AtCompute t \<Rightarrow>
          Inr (set_thread i (AtTableLock (task_id t) (sint (computePi f t))) s)
      | AtTableLock k v \<Rightarrow>
          (case PieTable_lock i (pieTable s) of
             None \<Rightarrow> Inr s
           | Some pt \<Rightarrow> Inr (set_thread i (AtInsert k v) (s\<lparr>pieTable := pt\<rparr>)))
      | AtInsert k v \<Rightarrow>
          Inr (set_thread i AtTableUnlock
                 (s\<lparr>pieTable := insertValue k (word_of_int v) (pieTable s)\<rparr>))
      | AtTableUnlock \<Rightarrow>
          Inr (set_thread i AtWhile (s\<lparr>pieTable := PieTable_unlock (pieTable s)\<rparr>))
      | Exited \<Rightarrow> Inr s)"

text \<open>
  A run of the pool under a schedule: the list of the workers that execute their
  next statement, in order. Every interleaving of the workers is a schedule. The
  run stops at the first fault.
\<close>

fun exec :: "(int \<Rightarrow> 32 word) \<Rightarrow> nat list \<Rightarrow> state \<Rightarrow> fault + state" where
  "exec f [] s = Inr s"
| "exec f (i # sched) s =
     (case thread_step f i s of Inl e \<Rightarrow> Inl e | Inr s' \<Rightarrow> exec f sched s')"

section \<open>\<open>main\<close>\<close>

definition numDigitsPie :: int where
  "numDigitsPie = 1000"

text \<open>Lines 319 to 322: \<open>for (int i = 1; i < numDigitsPie; i++) taskList.push(Task{i})\<close>.\<close>

definition load_queue :: "int \<Rightarrow> TaskList \<Rightarrow> TaskList" where
  "load_queue n tq = fold (\<lambda>i. push \<lparr>task_id = i\<rparr>) [1..n - 1] tq"

text \<open>
  Lines 308 to 349, for a digit count \<open>n\<close> (1000 in the source) and the value \<open>hc\<close>
  that \<open>std::thread::hardware_concurrency()\<close> returns, an \<open>unsigned int\<close> converted
  to \<open>int numThreads\<close>. The header is printed, the queue is loaded, the thread array
  is allocated and one worker per element is started at the top of its loop. A
  worker that line 349 has not created yet is a worker that the schedule has not
  run yet.
\<close>

definition main_start :: "int \<Rightarrow> 32 word \<Rightarrow> fault + state" where
  "main_start n hc =
     (let numThreads = sint hc;
          out = ''Computing pi with '' @ show_int numThreads @ '' threads '' @ [newline]
                @ show_int n @ '' Digits'' @ [newline];
          tq = load_queue n \<lparr>piQueue = [], queueMutex = None\<rparr>
      in if numThreads < 0 then Inl BadArrayNewLength
         else Inr \<lparr>taskList = tq,
                   pieTable = PieTable_init,
                   cout = out,
                   threads = replicate (nat numThreads) AtWhile\<rparr>)"

text \<open>Line 350: the joins return when every worker has returned.\<close>

definition joined :: "state \<Rightarrow> bool" where
  "joined s = list_all (\<lambda>w. w = Exited) (threads s)"

text \<open>Lines 355 to 357: \<open>for (int i = 1; i < numDigitsPie; i++) std::cout << pieTable.get(i)\<close>.\<close>

fun print_digits :: "int list \<Rightarrow> PieTable \<Rightarrow> string \<Rightarrow> PieTable \<times> string" where
  "print_digits [] pt out = (pt, out)"
| "print_digits (i # is) pt out =
     (case get i pt of (v, pt') \<Rightarrow> print_digits is pt' (out @ show_int v))"

text \<open>Lines 353 to 358: the text written after the join, and the table it leaves.\<close>

definition render :: "int \<Rightarrow> PieTable \<Rightarrow> PieTable \<times> string" where
  "render n pt =
     (case print_digits [1..n - 1] pt (newline # ''3.'') of
        (pt', out) \<Rightarrow> (pt', out @ [newline]))"

definition main_finish :: "int \<Rightarrow> state \<Rightarrow> state" where
  "main_finish n s =
     (case render n (pieTable s) of
        (pt', out) \<Rightarrow> s\<lparr>pieTable := pt', cout := cout s @ out\<rparr>)"

section \<open>Invariants of the pool\<close>

text \<open>
  The statements at which a worker holds the queue's mutex (lines 331 to 333) and
  the table's mutex (lines 337 and 338).
\<close>

fun owns_queue :: "worker \<Rightarrow> bool" where
  "owns_queue AtGetTask = True"
| "owns_queue (AtPop t) = True"
| "owns_queue (AtUnlock t) = True"
| "owns_queue w = False"

fun owns_table :: "worker \<Rightarrow> bool" where
  "owns_table (AtInsert k v) = True"
| "owns_table AtTableUnlock = True"
| "owns_table w = False"

definition mutex_inv :: "state \<Rightarrow> bool" where
  "mutex_inv s \<longleftrightarrow>
     (\<forall>i<length (threads s).
        (queueMutex (taskList s) = Some i) = owns_queue (threads s ! i) \<and>
        (hashMutex (pieTable s) = Some i) = owns_table (threads s ! i))"

text \<open>Between lines 331 and 332 the task a worker has copied is still the front.\<close>

definition front_inv :: "state \<Rightarrow> bool" where
  "front_inv s \<longleftrightarrow>
     (\<forall>i<length (threads s). \<forall>t. threads s ! i = AtPop t \<longrightarrow>
        (\<exists>q. piQueue (taskList s) = t # q))"

text \<open>The queue is never refilled: once a worker has returned, it is empty.\<close>

definition exited_inv :: "state \<Rightarrow> bool" where
  "exited_inv s \<longleftrightarrow>
     (\<forall>i<length (threads s). threads s ! i = Exited \<longrightarrow> piQueue (taskList s) = [])"

text \<open>
  The indices a worker has taken off the queue and not inserted yet, and the
  indices accounted for in a state: in the table, in the queue, or with a worker.
\<close>

fun inflight :: "worker \<Rightarrow> int set" where
  "inflight (AtUnlock t) = {task_id t}"
| "inflight (AtCompute t) = {task_id t}"
| "inflight (AtTableLock k v) = {k}"
| "inflight (AtInsert k v) = {k}"
| "inflight w = {}"

definition others :: "nat \<Rightarrow> worker list \<Rightarrow> int set" where
  "others i ts = (\<Union>j\<in>{..<length ts} - {i}. inflight (ts ! j))"

definition pending :: "state \<Rightarrow> int set" where
  "pending s =
     dom (pieMap (pieTable s)) \<union> task_id ` set (piQueue (taskList s)) \<union>
     (\<Union>i<length (threads s). inflight (threads s ! i))"

text \<open>Every number in the table, and on its way there, is the digit of its index.\<close>

definition value_inv :: "(int \<Rightarrow> 32 word) \<Rightarrow> state \<Rightarrow> bool" where
  "value_inv f s \<longleftrightarrow>
     (\<forall>k v. pieMap (pieTable s) k = Some v \<longrightarrow> v = f k) \<and>
     (\<forall>i<length (threads s). \<forall>k v.
        threads s ! i = AtTableLock k v \<or> threads s ! i = AtInsert k v \<longrightarrow>
        word_of_int v = f k)"

definition pool_inv :: "int \<Rightarrow> (int \<Rightarrow> 32 word) \<Rightarrow> state \<Rightarrow> bool" where
  "pool_inv n f s \<longleftrightarrow>
     mutex_inv s \<and> front_inv s \<and> exited_inv s \<and> value_inv f s \<and> pending s = {1..n - 1}"

text \<open>
  A bound on the statements the pool can still execute: ten for every task in
  the queue and, for every worker, the number of statements to the end of its
  iteration (from line 327 to line 332, where it takes a task, five statements
  that a worker can also spend without getting one).
\<close>

fun weight :: "worker \<Rightarrow> nat" where
  "weight AtWhile = 5"
| "weight AtPrint = 4"
| "weight AtLock = 3"
| "weight AtGetTask = 2"
| "weight (AtPop t) = 1"
| "weight (AtUnlock t) = 10"
| "weight (AtCompute t) = 9"
| "weight (AtTableLock k v) = 8"
| "weight (AtInsert k v) = 7"
| "weight AtTableUnlock = 6"
| "weight Exited = 0"

definition work :: "state \<Rightarrow> nat" where
  "work s = 10 * length (piQueue (taskList s)) + sum_list (map weight (threads s))"

text \<open>A mutex is only ever held by a worker of the pool.\<close>

definition owner_inv :: "state \<Rightarrow> bool" where
  "owner_inv s \<longleftrightarrow>
     (\<forall>k. queueMutex (taskList s) = Some k \<longrightarrow> k < length (threads s)) \<and>
     (\<forall>k. hashMutex (pieTable s) = Some k \<longrightarrow> k < length (threads s))"

text \<open>
  Worker \<open>i\<close> can execute its next statement: the statement is a fault or it
  uses up some of the work that is left (a worker that waits or has returned does
  neither).
\<close>

definition moves :: "(int \<Rightarrow> 32 word) \<Rightarrow> nat \<Rightarrow> state \<Rightarrow> bool" where
  "moves f i s \<longleftrightarrow>
     (case thread_step f i s of Inl e \<Rightarrow> True | Inr s' \<Rightarrow> work s' < work s)"

section \<open>Properties of the steps\<close>

declare drain.simps [simp del]

lemma set_thread_simps [simp]:
  "threads (set_thread i w s) = (threads s)[i := w]"
  "taskList (set_thread i w s) = taskList s"
  "pieTable (set_thread i w s) = pieTable s"
  "cout (set_thread i w s) = cout s"
  by (simp_all add: set_thread_def)

lemma thread_step_cases [consumes 1, case_names Idle While_exit While_enter Print Lock
    GetTask Pop Unlock Compute TableLock Insert TableUnlock]:
  assumes "thread_step f i s = Inr s'"
  obtains
    (Idle) "s' = s"
  | (While_exit) "i < length (threads s)" "threads s ! i = AtWhile"
      "piQueue (taskList s) = []" "s' = set_thread i Exited s"
  | (While_enter) "i < length (threads s)" "threads s ! i = AtWhile"
      "piQueue (taskList s) \<noteq> []" "s' = set_thread i AtPrint s"
  | (Print) "i < length (threads s)" "threads s ! i = AtPrint"
      "s' = set_thread i AtLock (s\<lparr>cout := cout s @ ''.''\<rparr>)"
  | (Lock) "i < length (threads s)" "threads s ! i = AtLock"
      "queueMutex (taskList s) = None"
      "s' = set_thread i AtGetTask (s\<lparr>taskList := (taskList s)\<lparr>queueMutex := Some i\<rparr>\<rparr>)"
  | (GetTask) t q where "i < length (threads s)" "threads s ! i = AtGetTask"
      "piQueue (taskList s) = t # q" "s' = set_thread i (AtPop t) s"
  | (Pop) t u q where "i < length (threads s)" "threads s ! i = AtPop t"
      "piQueue (taskList s) = u # q"
      "s' = set_thread i (AtUnlock t) (s\<lparr>taskList := (taskList s)\<lparr>piQueue := q\<rparr>\<rparr>)"
  | (Unlock) t where "i < length (threads s)" "threads s ! i = AtUnlock t"
      "s' = set_thread i (AtCompute t) (s\<lparr>taskList := (taskList s)\<lparr>queueMutex := None\<rparr>\<rparr>)"
  | (Compute) t where "i < length (threads s)" "threads s ! i = AtCompute t"
      "s' = set_thread i (AtTableLock (task_id t) (sint (f (task_id t)))) s"
  | (TableLock) k v where "i < length (threads s)" "threads s ! i = AtTableLock k v"
      "hashMutex (pieTable s) = None"
      "s' = set_thread i (AtInsert k v) (s\<lparr>pieTable := (pieTable s)\<lparr>hashMutex := Some i\<rparr>\<rparr>)"
  | (Insert) k v where "i < length (threads s)" "threads s ! i = AtInsert k v"
      "s' = set_thread i AtTableUnlock
              (s\<lparr>pieTable := insertValue k (word_of_int v) (pieTable s)\<rparr>)"
  | (TableUnlock) "i < length (threads s)" "threads s ! i = AtTableUnlock"
      "s' = set_thread i AtWhile (s\<lparr>pieTable := (pieTable s)\<lparr>hashMutex := None\<rparr>\<rparr>)"
proof (cases "length (threads s) \<le> i")
  case True
  with assms have "s' = s" by (simp add: thread_step_def)
  then show ?thesis by (rule Idle)
next
  case False
  then have i: "i < length (threads s)" by simp
  note step = assms [unfolded thread_step_def, simplified False if_False]
  show ?thesis
  proof (cases "threads s ! i")
    case AtWhile
    show ?thesis
    proof (cases "piQueue (taskList s) = []")
      case True
      with step AtWhile have "s' = set_thread i Exited s" by (simp add: isEmpty_def)
      with i AtWhile True show ?thesis by (rule While_exit)
    next
      case False
      with step AtWhile have "s' = set_thread i AtPrint s" by (simp add: isEmpty_def)
      with i AtWhile False show ?thesis by (rule While_enter)
    qed
  next
    case AtPrint
    with step have "s' = set_thread i AtLock (s\<lparr>cout := cout s @ ''.''\<rparr>)" by simp
    with i AtPrint show ?thesis by (rule Print)
  next
    case AtLock
    show ?thesis
    proof (cases "queueMutex (taskList s)")
      case None
      with step AtLock
      have "s' = set_thread i AtGetTask (s\<lparr>taskList := (taskList s)\<lparr>queueMutex := Some i\<rparr>\<rparr>)"
        by (simp add: TaskList_lock_def)
      with i AtLock None show ?thesis by (rule Lock)
    next
      case (Some j)
      with step AtLock have "s' = s" by (simp add: TaskList_lock_def)
      then show ?thesis by (rule Idle)
    qed
  next
    case AtGetTask
    show ?thesis
    proof (cases "piQueue (taskList s)")
      case Nil
      with step AtGetTask show ?thesis by (simp add: getTask_def)
    next
      case (Cons t q)
      with step AtGetTask have "s' = set_thread i (AtPop t) s" by (simp add: getTask_def)
      with i AtGetTask Cons show ?thesis by (rule GetTask)
    qed
  next
    case (AtPop t)
    show ?thesis
    proof (cases "piQueue (taskList s)")
      case Nil
      with step AtPop show ?thesis by (simp add: pop_def)
    next
      case (Cons u q)
      with step AtPop
      have "s' = set_thread i (AtUnlock t) (s\<lparr>taskList := (taskList s)\<lparr>piQueue := q\<rparr>\<rparr>)"
        by (simp add: pop_def)
      with i AtPop Cons show ?thesis by (rule Pop)
    qed
  next
    case (AtUnlock t)
    with step
    have "s' = set_thread i (AtCompute t) (s\<lparr>taskList := (taskList s)\<lparr>queueMutex := None\<rparr>\<rparr>)"
      by (simp add: TaskList_unlock_def)
    with i AtUnlock show ?thesis by (rule Unlock)
  next
    case (AtCompute t)
    with step
    have "s' = set_thread i (AtTableLock (task_id t) (sint (f (task_id t)))) s"
      by (simp add: computePi_def)
    with i AtCompute show ?thesis by (rule Compute)
  next
    case (AtTableLock k v)
    show ?thesis
    proof (cases "hashMutex (pieTable s)")
      case None
      with step AtTableLock
      have "s' = set_thread i (AtInsert k v) (s\<lparr>pieTable := (pieTable s)\<lparr>hashMutex := Some i\<rparr>\<rparr>)"
        by (simp add: PieTable_lock_def)
      with i AtTableLock None show ?thesis by (rule TableLock)
    next
      case (Some j)
      with step AtTableLock have "s' = s" by (simp add: PieTable_lock_def)
      then show ?thesis by (rule Idle)
    qed
  next
    case (AtInsert k v)
    with step
    have "s' = set_thread i AtTableUnlock
                 (s\<lparr>pieTable := insertValue k (word_of_int v) (pieTable s)\<rparr>)"
      by simp
    with i AtInsert show ?thesis by (rule Insert)
  next
    case AtTableUnlock
    with step
    have "s' = set_thread i AtWhile (s\<lparr>pieTable := (pieTable s)\<lparr>hashMutex := None\<rparr>\<rparr>)"
      by (simp add: PieTable_unlock_def)
    with i AtTableUnlock show ?thesis by (rule TableUnlock)
  next
    case Exited
    with step have "s' = s" by simp
    then show ?thesis by (rule Idle)
  qed
qed

lemma queue_owner_unique:
  assumes "mutex_inv s" "i < length (threads s)" "j < length (threads s)"
    "owns_queue (threads s ! i)" "owns_queue (threads s ! j)"
  shows "i = j"
proof -
  from assms have "queueMutex (taskList s) = Some i" "queueMutex (taskList s) = Some j"
    by (simp_all add: mutex_inv_def)
  then show ?thesis by simp
qed

lemma table_owner_unique:
  assumes "mutex_inv s" "i < length (threads s)" "j < length (threads s)"
    "owns_table (threads s ! i)" "owns_table (threads s ! j)"
  shows "i = j"
proof -
  from assms have "hashMutex (pieTable s) = Some i" "hashMutex (pieTable s) = Some j"
    by (simp_all add: mutex_inv_def)
  then show ?thesis by simp
qed

lemma mutex_inv_step:
  assumes "thread_step f i s = Inr s'" "mutex_inv s"
  shows "mutex_inv s'"
  using assms(1)
proof (cases rule: thread_step_cases)
  case (Unlock t)
  with assms(2) have "queueMutex (taskList s) = Some i" by (simp add: mutex_inv_def)
  with Unlock assms(2) show ?thesis by (auto simp: mutex_inv_def nth_list_update)
next
  case TableUnlock
  with assms(2) have "hashMutex (pieTable s) = Some i" by (simp add: mutex_inv_def)
  with TableUnlock assms(2) show ?thesis by (auto simp: mutex_inv_def nth_list_update)
next
  case (Insert k v)
  with assms(2) show ?thesis
    by (auto simp: mutex_inv_def nth_list_update insertValue_def split: option.splits)
qed (use assms(2) in \<open>auto simp: mutex_inv_def nth_list_update\<close>)

lemma front_inv_step:
  assumes "thread_step f i s = Inr s'" "mutex_inv s" "front_inv s"
  shows "front_inv s'"
  using assms(1)
proof (cases rule: thread_step_cases)
  case (Pop t u q)
  have "threads s ! j \<noteq> AtPop t'" if "j < length (threads s)" "j \<noteq> i" for j t'
  proof
    assume "threads s ! j = AtPop t'"
    with Pop that have "j = i"
      by (intro queue_owner_unique [OF assms(2)]) simp_all
    with that show False by simp
  qed
  with Pop show ?thesis by (auto simp: front_inv_def nth_list_update)
next
  case (Insert k v)
  with assms(3) show ?thesis
    by (auto simp: front_inv_def nth_list_update insertValue_def split: option.splits)
qed (use assms(3) in \<open>auto simp: front_inv_def nth_list_update\<close>)

lemma exited_inv_step:
  assumes "thread_step f i s = Inr s'" "exited_inv s"
  shows "exited_inv s'"
  using assms(1)
proof (cases rule: thread_step_cases)
  case (Insert k v)
  with assms(2) show ?thesis
    by (auto simp: exited_inv_def nth_list_update insertValue_def split: option.splits)
qed (use assms(2) in \<open>auto simp: exited_inv_def nth_list_update\<close>)

lemma value_inv_step:
  assumes "thread_step f i s = Inr s'" "value_inv f s"
  shows "value_inv f s'"
  using assms(1)
proof (cases rule: thread_step_cases)
  case (Insert k v)
  with assms(2) have "word_of_int v = f k" by (auto simp: value_inv_def)
  with Insert assms(2) show ?thesis
    by (auto simp: value_inv_def nth_list_update insertValue_def split: option.splits if_splits)
qed (use assms(2) in \<open>auto simp: value_inv_def nth_list_update\<close>)

lemma inflight_split:
  assumes "i < length ts"
  shows "(\<Union>j<length ts. inflight (ts ! j)) = inflight (ts ! i) \<union> others i ts"
  using assms unfolding others_def by blast

lemma others_update [simp]: "others i (ts[i := w]) = others i ts"
  by (simp add: others_def)

lemma pending_set_thread:
  assumes "i < length (threads s)"
  shows "pending (set_thread i w s) =
     dom (pieMap (pieTable s)) \<union> task_id ` set (piQueue (taskList s)) \<union>
     (inflight w \<union> others i (threads s))"
proof -
  from assms have "i < length ((threads s)[i := w])" by simp
  from inflight_split [OF this] assms show ?thesis
    by (simp add: pending_def)
qed

lemma pending_split:
  assumes "i < length (threads s)"
  shows "pending s =
     dom (pieMap (pieTable s)) \<union> task_id ` set (piQueue (taskList s)) \<union>
     (inflight (threads s ! i) \<union> others i (threads s))"
  using inflight_split [OF assms] by (simp add: pending_def)

lemma pending_step:
  assumes "thread_step f i s = Inr s'" "front_inv s"
  shows "pending s' = pending s"
  using assms(1)
proof (cases rule: thread_step_cases)
  case Idle
  then show ?thesis by simp
next
  case While_exit
  then show ?thesis by (simp add: pending_set_thread pending_split [of i s])
next
  case While_enter
  then show ?thesis by (simp add: pending_set_thread pending_split [of i s])
next
  case Print
  then show ?thesis
    using pending_set_thread [of i "s\<lparr>cout := cout s @ ''.''\<rparr>" AtLock]
    by (simp add: pending_split [of i s])
next
  case Lock
  then show ?thesis
    using pending_set_thread
      [of i "s\<lparr>taskList := (taskList s)\<lparr>queueMutex := Some i\<rparr>\<rparr>" AtGetTask]
    by (simp add: pending_split [of i s])
next
  case (GetTask t q)
  then show ?thesis by (simp add: pending_set_thread pending_split [of i s])
next
  case (Pop t u q)
  with assms(2) have "u = t" by (auto simp: front_inv_def)
  with Pop show ?thesis
    using pending_set_thread
      [of i "s\<lparr>taskList := (taskList s)\<lparr>piQueue := q\<rparr>\<rparr>" "AtUnlock t"]
    by (simp add: pending_split [of i s])
next
  case (Unlock t)
  then show ?thesis
    using pending_set_thread
      [of i "s\<lparr>taskList := (taskList s)\<lparr>queueMutex := None\<rparr>\<rparr>" "AtCompute t"]
    by (simp add: pending_split [of i s])
next
  case (Compute t)
  then show ?thesis by (simp add: pending_set_thread pending_split [of i s])
next
  case (TableLock k v)
  then show ?thesis
    using pending_set_thread
      [of i "s\<lparr>pieTable := (pieTable s)\<lparr>hashMutex := Some i\<rparr>\<rparr>" "AtInsert k v"]
    by (simp add: pending_split [of i s])
next
  case (Insert k v)
  have "dom (pieMap (insertValue k w (pieTable s))) = insert k (dom (pieMap (pieTable s)))" for w
    by (auto simp: insertValue_def split: option.splits)
  with Insert show ?thesis
    using pending_set_thread
      [of i "s\<lparr>pieTable := insertValue k (word_of_int v) (pieTable s)\<rparr>" AtTableUnlock]
    by (simp add: pending_split [of i s])
next
  case TableUnlock
  then show ?thesis
    using pending_set_thread
      [of i "s\<lparr>pieTable := (pieTable s)\<lparr>hashMutex := None\<rparr>\<rparr>" AtWhile]
    by (simp add: pending_split [of i s])
qed

lemma pool_inv_step:
  assumes "thread_step f i s = Inr s'" "pool_inv n f s"
  shows "pool_inv n f s'"
  using assms
  by (simp add: pool_inv_def mutex_inv_step [OF assms(1)] front_inv_step [OF assms(1)]
      exited_inv_step [OF assms(1)] value_inv_step [OF assms(1)] pending_step [OF assms(1)])

lemma pool_inv_exec:
  "exec f sched s = Inr s' \<Longrightarrow> pool_inv n f s \<Longrightarrow> pool_inv n f s'"
proof (induction sched arbitrary: s)
  case Nil
  then show ?case by simp
next
  case (Cons i sched)
  then show ?case
    by (cases "thread_step f i s") (auto dest: pool_inv_step)
qed

lemma piQueue_fold_push: "piQueue (fold (\<lambda>i. push (g i)) xs tq) = piQueue tq @ map g xs"
  by (induction xs arbitrary: tq) (simp_all add: push_def)

lemma queueMutex_fold_push: "queueMutex (fold (\<lambda>i. push (g i)) xs tq) = queueMutex tq"
  by (induction xs arbitrary: tq) (simp_all add: push_def)

lemma load_queue_eq:
  "load_queue n \<lparr>piQueue = [], queueMutex = None\<rparr> =
     \<lparr>piQueue = map (\<lambda>i. \<lparr>task_id = i\<rparr>) [1..n - 1], queueMutex = None\<rparr>"
  by (simp add: load_queue_def piQueue_fold_push queueMutex_fold_push)

lemma main_start_eq:
  "main_start n hc =
     (if sint hc < 0 then Inl BadArrayNewLength
      else Inr \<lparr>taskList = \<lparr>piQueue = map (\<lambda>i. \<lparr>task_id = i\<rparr>) [1..n - 1], queueMutex = None\<rparr>,
                pieTable = \<lparr>hashMutex = None, pieMap = Map.empty\<rparr>,
                cout = ''Computing pi with '' @ show_int (sint hc) @ '' threads '' @ [newline]
                       @ show_int n @ '' Digits'' @ [newline],
                threads = replicate (nat (sint hc)) AtWhile\<rparr>)"
  by (simp add: main_start_def Let_def load_queue_eq PieTable_init_def)

lemma pool_inv_main_start:
  assumes "main_start n hc = Inr s"
  shows "pool_inv n f s"
proof -
  from assms have s: "s = \<lparr>taskList = \<lparr>piQueue = map (\<lambda>i. \<lparr>task_id = i\<rparr>) [1..n - 1], queueMutex = None\<rparr>,
                pieTable = \<lparr>hashMutex = None, pieMap = Map.empty\<rparr>,
                cout = ''Computing pi with '' @ show_int (sint hc) @ '' threads '' @ [newline]
                       @ show_int n @ '' Digits'' @ [newline],
                threads = replicate (nat (sint hc)) AtWhile\<rparr>"
    by (simp add: main_start_eq split: if_splits)
  have "task_id ` (\<lambda>i. \<lparr>task_id = i\<rparr>) ` {1..n - 1} = {1..n - 1}"
    by (simp add: image_image)
  then have "pending s = {1..n - 1}"
    by (simp add: s pending_def)
  moreover have "mutex_inv s" "front_inv s" "exited_inv s" "value_inv f s"
    by (simp_all add: s mutex_inv_def front_inv_def exited_inv_def value_inv_def)
  ultimately show ?thesis by (simp add: pool_inv_def)
qed

lemma joined_table:
  assumes "pool_inv n f s" "joined s" "threads s \<noteq> []"
  shows "pieMap (pieTable s) = (\<lambda>k. if 1 \<le> k \<and> k < n then Some (f k) else None)"
proof -
  from assms(2) have ex: "\<And>i. i < length (threads s) \<Longrightarrow> threads s ! i = Exited"
    by (simp add: joined_def list_all_length)
  from assms(3) have "0 < length (threads s)" by simp
  with ex [of 0] assms(1) have "piQueue (taskList s) = []"
    by (auto simp: pool_inv_def exited_inv_def)
  with ex have "pending s = dom (pieMap (pieTable s))"
    by (simp add: pending_def)
  with assms(1) have d: "dom (pieMap (pieTable s)) = {1..n - 1}"
    by (simp add: pool_inv_def)
  from assms(1) have v: "\<And>k v. pieMap (pieTable s) k = Some v \<Longrightarrow> v = f k"
    by (simp add: pool_inv_def value_inv_def)
  show ?thesis
  proof
    fix k
    show "pieMap (pieTable s) k = (if 1 \<le> k \<and> k < n then Some (f k) else None)"
    proof (cases "1 \<le> k \<and> k < n")
      case True
      then have "k \<in> dom (pieMap (pieTable s))" by (simp add: d)
      then obtain v where "pieMap (pieTable s) k = Some v" by blast
      with v [OF this] True show ?thesis by simp
    next
      case False
      then have "k \<notin> dom (pieMap (pieTable s))" by (auto simp: d)
      with False show ?thesis by (simp add: domIff)
    qed
  qed
qed

lemma replicate_10: "replicate 10 i = [i, i, i, i, i, i, i, i, i, i]"
  by (simp add: numeral_eq_Suc)

lemma iteration:
  assumes "i < length (threads s)" "threads s ! i = AtWhile"
    "piQueue (taskList s) = t # q"
    "queueMutex (taskList s) = None" "hashMutex (pieTable s) = None"
  shows "\<exists>s'. exec f (replicate 10 i) s = Inr s' \<and> threads s' = threads s \<and>
     piQueue (taskList s') = q \<and> queueMutex (taskList s') = None \<and>
     hashMutex (pieTable s') = None \<and>
     pieMap (pieTable s') = pieMap (insertValue (task_id t) (f (task_id t)) (pieTable s)) \<and>
     cout s' = cout s @ ''.''"
  using assms
  apply (simp add: replicate_10 thread_step_def isEmpty_def TaskList_lock_def getTask_def pop_def
     TaskList_unlock_def computePi_def PieTable_lock_def PieTable_unlock_def)
  apply (simp add: insertValue_def list_update_same_conv split: option.splits)
  done

lemma exec_append:
  "exec f (a @ b) s = (case exec f a s of Inl e \<Rightarrow> Inl e | Inr s' \<Rightarrow> exec f b s')"
  by (induction a arbitrary: s) (simp_all split: sum.splits)

lemma solo_run:
  assumes "i < length (threads s)" "threads s ! i = AtWhile"
    "piQueue (taskList s) = q1 @ q2"
    "queueMutex (taskList s) = None" "hashMutex (pieTable s) = None"
  shows "\<exists>s'. exec f (replicate (10 * length q1) i) s = Inr s' \<and> threads s' = threads s \<and>
     piQueue (taskList s') = q2 \<and> queueMutex (taskList s') = None \<and>
     hashMutex (pieTable s') = None \<and>
     cout s' = cout s @ replicate (length q1) (CHR ''.'')"
  using assms
proof (induction q1 arbitrary: s)
  case Nil
  then show ?case by simp
next
  case (Cons t q1)
  from Cons.prems have "piQueue (taskList s) = t # (q1 @ q2)" by simp
  from iteration [OF Cons.prems(1,2) this Cons.prems(4,5), of f]
  obtain s1 where s1: "exec f (replicate 10 i) s = Inr s1" "threads s1 = threads s"
    "piQueue (taskList s1) = q1 @ q2" "queueMutex (taskList s1) = None"
    "hashMutex (pieTable s1) = None" "cout s1 = cout s @ ''.''"
    by blast
  from Cons.prems s1 have "i < length (threads s1)" "threads s1 ! i = AtWhile" by simp_all
  from Cons.IH [OF this s1(3,4,5)]
  obtain s' where s': "exec f (replicate (10 * length q1) i) s1 = Inr s'"
    "threads s' = threads s1" "piQueue (taskList s') = q2"
    "queueMutex (taskList s') = None" "hashMutex (pieTable s') = None"
    "cout s' = cout s1 @ replicate (length q1) (CHR ''.'')"
    by blast
  have "replicate (10 * length (t # q1)) i = replicate 10 i @ replicate (10 * length q1) i"
    by (simp add: replicate_add [symmetric])
  with s1 s' show ?case by (simp add: exec_append del: replicate_add)
qed

lemma exit_all:
  assumes "piQueue (taskList s) = []" "k \<le> length (threads s)"
    "\<And>j. j < k \<Longrightarrow> threads s ! j = Exited"
    "\<And>j. k \<le> j \<Longrightarrow> j < length (threads s) \<Longrightarrow> threads s ! j = AtWhile"
  shows "\<exists>s'. exec f [k..<length (threads s)] s = Inr s' \<and> joined s'"
  using assms
proof (induction "length (threads s) - k" arbitrary: s k)
  case 0
  then have "k = length (threads s)" by simp
  with 0 show ?case by (simp add: joined_def list_all_length)
next
  case (Suc d)
  then have k: "k < length (threads s)" by simp
  let ?s1 = "set_thread k Exited s"
  from k Suc.prems have step: "thread_step f k s = Inr ?s1"
    by (simp add: thread_step_def isEmpty_def)
  have "\<exists>s'. exec f [Suc k..<length (threads ?s1)] ?s1 = Inr s' \<and> joined s'"
  proof (rule Suc.hyps(1))
    show "d = length (threads ?s1) - Suc k" using Suc.hyps(2) by simp
    show "piQueue (taskList ?s1) = []" using Suc.prems(1) by simp
    show "Suc k \<le> length (threads ?s1)" using k by simp
    show "threads ?s1 ! j = Exited" if "j < Suc k" for j
      using that k Suc.prems(3) [of j] by (cases "j = k") (simp_all add: nth_list_update)
    show "threads ?s1 ! j = AtWhile" if "Suc k \<le> j" "j < length (threads ?s1)" for j
      using that Suc.prems(4) [of j] by (simp add: nth_list_update)
  qed
  then obtain s' where "exec f [Suc k..<length (threads s)] ?s1 = Inr s'" "joined s'"
    by auto
  with step k show ?case by (simp add: upt_conv_Cons)
qed

lemma complete_run_exists:
  assumes "0 \<le> sint hc"
  shows "\<exists>s0 sched s. main_start n hc = Inr s0 \<and> exec f sched s0 = Inr s \<and> joined s"
proof -
  let ?q = "map (\<lambda>i. \<lparr>task_id = i\<rparr>) [1..n - 1]"
  obtain s0 where s0: "main_start n hc = Inr s0" "threads s0 = replicate (nat (sint hc)) AtWhile"
    "piQueue (taskList s0) = ?q" "queueMutex (taskList s0) = None"
    "hashMutex (pieTable s0) = None"
    using assms by (simp add: main_start_eq)
  show ?thesis
  proof (cases "nat (sint hc)")
    case 0
    with s0 have "exec f [] s0 = Inr s0" "joined s0" by (simp_all add: joined_def)
    with s0 show ?thesis by blast
  next
    case (Suc p)
    with s0 have "0 < length (threads s0)" "threads s0 ! 0 = AtWhile" by simp_all
    from solo_run [OF this, of ?q "[]" f] s0
    obtain s1 where s1: "exec f (replicate (10 * length ?q) 0) s0 = Inr s1"
      "threads s1 = threads s0" "piQueue (taskList s1) = []"
      by auto
    have "\<exists>s'. exec f [0..<length (threads s1)] s1 = Inr s' \<and> joined s'"
      by (rule exit_all) (simp_all add: s1 s0)
    then obtain s where "exec f [0..<length (threads s1)] s1 = Inr s" "joined s" by blast
    with s1 have "exec f (replicate (10 * length ?q) 0 @ [0..<length (threads s1)]) s0 = Inr s"
      by (simp add: exec_append)
    with s0 \<open>joined s\<close> show ?thesis by blast
  qed
qed

lemma length_threads_step:
  "thread_step f i s = Inr s' \<Longrightarrow> length (threads s') = length (threads s)"
  by (cases rule: thread_step_cases) auto

lemma length_threads_exec:
  "exec f sched s = Inr s' \<Longrightarrow> length (threads s') = length (threads s)"
proof (induction sched arbitrary: s)
  case Nil
  then show ?case by simp
next
  case (Cons i sched)
  then show ?case
    by (cases "thread_step f i s") (auto dest: length_threads_step)
qed

lemma nat_sint_eq_unat: "0 \<le> sint (w :: 32 word) \<Longrightarrow> nat (sint w) = unat w"
proof -
  assume nn: "0 \<le> sint w"
  have "sint w < 2 ^ (LENGTH(32) - 1)" by (rule sint_lt)
  then have "sint w < 2 ^ LENGTH(32)" by simp
  with nn have "take_bit LENGTH(32) (sint w) = sint w"
    by (simp add: take_bit_int_eq_self)
  then have "uint w = sint w" by (simp add: uint_sint)
  then show ?thesis by (simp add: unat_eq_nat_uint)
qed

lemma race_run:
  assumes "2 \<le> n" "2 \<le> sint hc"
  shows "\<exists>s0 s. main_start n hc = Inr s0 \<and>
     exec f (replicate (10 * nat (n - 2)) 0 @ [0, 1, 0, 0, 0, 0, 0, 1, 1]) s0 = Inr s \<and>
     threads s ! 1 = AtGetTask \<and> queueMutex (taskList s) = Some 1 \<and>
     piQueue (taskList s) = []"
proof -
  let ?q = "map (\<lambda>i. \<lparr>task_id = i\<rparr>) [1..n - 2]"
  let ?t = "\<lparr>task_id = n - 1\<rparr>"
  from assms(1) have "[1..n - 1] = [1..n - 2] @ [n - 1]"
    using upto_rec2 [of 1 "n - 1"] by simp
  then have q: "map (\<lambda>i. \<lparr>task_id = i\<rparr>) [1..n - 1] = ?q @ [?t]" by simp
  obtain s0 where s0: "main_start n hc = Inr s0" "threads s0 = replicate (nat (sint hc)) AtWhile"
    "piQueue (taskList s0) = ?q @ [?t]" "queueMutex (taskList s0) = None"
    "hashMutex (pieTable s0) = None"
    using assms by (simp add: main_start_eq q)
  from assms(2) have len: "1 < length (threads s0)" "0 < length (threads s0)"
    by (simp_all add: s0)
  with s0 have w: "threads s0 ! 0 = AtWhile" "threads s0 ! 1 = AtWhile" by simp_all
  have lq: "length ?q = nat (n - 2)" by simp
  from solo_run [OF len(2) w(1) s0(3,4,5), of f]
  obtain s1 where s1: "exec f (replicate (10 * nat (n - 2)) 0) s0 = Inr s1"
      "threads s1 = threads s0" "piQueue (taskList s1) = [?t]"
      "queueMutex (taskList s1) = None"
    unfolding lq by auto
  let ?race = "[0, 1, 0, 0, 0, 0, 0, 1, 1]"
  from s1 len w
  have "\<exists>s. exec f ?race s1 = Inr s \<and>
     threads s ! 1 = AtGetTask \<and> queueMutex (taskList s) = Some 1 \<and> piQueue (taskList s) = []"
    by (simp add: thread_step_def isEmpty_def TaskList_lock_def getTask_def pop_def
         TaskList_unlock_def)
  then obtain s where "exec f ?race s1 = Inr s"
    "threads s ! 1 = AtGetTask \<and> queueMutex (taskList s) = Some 1 \<and> piQueue (taskList s) = []"
    by blast
  with s1 have "exec f (replicate (10 * nat (n - 2)) 0 @ ?race) s0 = Inr s"
    by (simp add: exec_append)
  with s0 \<open>threads s ! 1 = AtGetTask \<and> _\<close> show ?thesis by blast
qed

lemma single_worker_terminates:
  assumes "sint hc = 1"
  shows "\<exists>s0 s. main_start n hc = Inr s0 \<and>
     exec f (replicate (10 * nat (n - 1)) 0 @ [0]) s0 = Inr s \<and> joined s"
proof -
  let ?q = "map (\<lambda>i. \<lparr>task_id = i\<rparr>) [1..n - 1]"
  obtain s0 where s0: "main_start n hc = Inr s0" "threads s0 = [AtWhile]"
    "piQueue (taskList s0) = ?q @ []" "queueMutex (taskList s0) = None"
    "hashMutex (pieTable s0) = None"
    using assms by (simp add: main_start_eq)
  then have "0 < length (threads s0)" "threads s0 ! 0 = AtWhile" by simp_all
  from solo_run [OF this s0(3,4,5), of f]
  obtain s1 where s1: "exec f (replicate (10 * nat (n - 1)) 0) s0 = Inr s1"
    "threads s1 = threads s0" "piQueue (taskList s1) = []"
    by auto
  with s0 have "\<exists>s. exec f [0] s1 = Inr s \<and> joined s"
    by (simp add: thread_step_def isEmpty_def joined_def)
  then obtain s where "exec f [0] s1 = Inr s" "joined s" by blast
  with s1 have "exec f (replicate (10 * nat (n - 1)) 0 @ [0]) s0 = Inr s"
    by (simp add: exec_append)
  with s0 \<open>joined s\<close> show ?thesis by blast
qed

lemma weight_update:
  assumes "i < length ts" "weight w < weight (ts ! i)"
  shows "sum_list (map weight (ts[i := w])) < sum_list (map weight ts)"
proof -
  have "sum_list (map weight (ts[i := w])) = sum_list ((map weight ts)[i := weight w])"
    by (simp add: map_update)
  also have "\<dots> = sum_list (map weight ts) + weight w - map weight ts ! i"
    using assms(1) by (simp add: sum_list_update)
  finally have e: "sum_list (map weight (ts[i := w])) =
      sum_list (map weight ts) + weight w - weight (ts ! i)"
    using assms(1) by simp
  have "weight (ts ! i) \<le> sum_list (map weight ts)"
    using elem_le_sum_list [of i "map weight ts"] assms(1) by simp
  with e assms(2) show ?thesis by simp
qed

lemma weight_update_pop:
  assumes "i < length ts" "ts ! i = AtPop t"
  shows "sum_list (map weight (ts[i := AtUnlock u])) = sum_list (map weight ts) + 9"
proof -
  have "sum_list (map weight (ts[i := AtUnlock u])) = sum_list ((map weight ts)[i := 10])"
    by (simp add: map_update)
  also have "\<dots> = sum_list (map weight ts) + 10 - map weight ts ! i"
    using assms(1) by (simp add: sum_list_update)
  finally show ?thesis using assms by simp
qed

lemma work_step:
  assumes "thread_step f i s = Inr s'"
  shows "s' = s \<or> work s' < work s"
  using assms
proof (cases rule: thread_step_cases)
  case (Pop t u q)
  then show ?thesis by (simp add: work_def weight_update_pop)
qed (simp_all add: work_def weight_update)

lemma owner_inv_step:
  assumes "thread_step f i s = Inr s'" "owner_inv s"
  shows "owner_inv s'"
  using assms(1)
proof (cases rule: thread_step_cases)
  case Idle
  with assms show ?thesis by simp
next
  case (Insert k v)
  with assms(2) show ?thesis
    by (auto simp: owner_inv_def insertValue_def split: option.splits)
qed (use assms(2) in \<open>auto simp: owner_inv_def\<close>)

lemma owner_inv_exec:
  "exec f sched s = Inr s' \<Longrightarrow> owner_inv s \<Longrightarrow> owner_inv s'"
proof (induction sched arbitrary: s)
  case Nil
  then show ?case by simp
next
  case (Cons i sched)
  then show ?case
    by (cases "thread_step f i s") (auto dest: owner_inv_step)
qed

lemma owner_inv_main_start: "main_start n hc = Inr s \<Longrightarrow> owner_inv s"
  by (auto simp: main_start_eq owner_inv_def split: if_splits)

lemma moves_unless_waiting:
  assumes "i < length (threads s)" "threads s ! i \<noteq> Exited"
    "threads s ! i = AtLock \<Longrightarrow> queueMutex (taskList s) = None"
    "\<And>k v. threads s ! i = AtTableLock k v \<Longrightarrow> hashMutex (pieTable s) = None"
  shows "moves f i s"
proof (cases "thread_step f i s")
  case (Inl e)
  then show ?thesis by (simp add: moves_def)
next
  case (Inr s')
  then have "s' = s \<or> work s' < work s" by (rule work_step)
  moreover have "threads s' ! i \<noteq> threads s ! i"
  proof (cases "threads s ! i")
    case AtLock
    with assms(3) have "queueMutex (taskList s) = None" by simp
    with Inr AtLock assms(1) show ?thesis
      by (auto simp: thread_step_def TaskList_lock_def)
  next
    case (AtTableLock k v)
    with assms(4) have "hashMutex (pieTable s) = None" by simp
    with Inr AtTableLock assms(1) show ?thesis
      by (auto simp: thread_step_def PieTable_lock_def)
  next
    case AtWhile
    with Inr assms(1) show ?thesis
      by (auto simp: thread_step_def split: if_splits)
  next
    case AtPrint
    with Inr assms(1) show ?thesis by (auto simp: thread_step_def)
  next
    case AtGetTask
    with Inr assms(1) show ?thesis
      by (auto simp: thread_step_def split: sum.splits)
  next
    case (AtPop t)
    with Inr assms(1) show ?thesis
      by (auto simp: thread_step_def split: sum.splits)
  next
    case (AtUnlock t)
    with Inr assms(1) show ?thesis by (auto simp: thread_step_def)
  next
    case (AtCompute t)
    with Inr assms(1) show ?thesis by (auto simp: thread_step_def)
  next
    case (AtInsert k v)
    with Inr assms(1) show ?thesis by (auto simp: thread_step_def)
  next
    case AtTableUnlock
    with Inr assms(1) show ?thesis by (auto simp: thread_step_def)
  next
    case Exited
    with assms(2) show ?thesis by simp
  qed
  then have "s' \<noteq> s" by auto
  ultimately show ?thesis using Inr by (simp add: moves_def)
qed

lemma pool_progress:
  assumes "mutex_inv s" "owner_inv s" "\<not> joined s"
  shows "\<exists>i<length (threads s). moves f i s"
proof -
  from assms(3) obtain j where j: "j < length (threads s)" "threads s ! j \<noteq> Exited"
    by (auto simp: joined_def list_all_length)
  show ?thesis
  proof (cases "threads s ! j = AtLock \<and> queueMutex (taskList s) \<noteq> None")
    case True
    then obtain k where k: "queueMutex (taskList s) = Some k" by auto
    with assms(2) have kl: "k < length (threads s)" by (simp add: owner_inv_def)
    with assms(1) k have o: "owns_queue (threads s ! k)" by (auto simp: mutex_inv_def)
    then have "moves f k s"
      by (intro moves_unless_waiting [OF kl]) auto
    with kl show ?thesis by blast
  next
    case q: False
    show ?thesis
    proof (cases "\<exists>k v. threads s ! j = AtTableLock k v \<and> hashMutex (pieTable s) \<noteq> None")
      case True
      then obtain k where k: "hashMutex (pieTable s) = Some k" by auto
      with assms(2) have kl: "k < length (threads s)" by (simp add: owner_inv_def)
      with assms(1) k have o: "owns_table (threads s ! k)" by (auto simp: mutex_inv_def)
      then have "moves f k s"
        by (intro moves_unless_waiting [OF kl]) auto
      with kl show ?thesis by blast
    next
      case False
      with q j have "moves f j s"
        by (intro moves_unless_waiting) auto
      with j show ?thesis by blast
    qed
  qed
qed

lemma work_exec:
  "exec f sched s = Inr s' \<Longrightarrow> work s' \<le> work s"
proof (induction sched arbitrary: s)
  case Nil
  then show ?case by simp
next
  case (Cons i sched)
  then obtain s1 where s1: "thread_step f i s = Inr s1" "exec f sched s1 = Inr s'"
    by (cases "thread_step f i s") auto
  from work_step [OF s1(1)] have "work s1 \<le> work s" by auto
  with Cons.IH [OF s1(2)] show ?case by simp
qed

lemma work_main_start:
  assumes "main_start n hc = Inr s"
  shows "work s = 10 * nat (n - 1) + 5 * unat hc"
proof -
  from assms have nn: "0 \<le> sint hc" 
    and q: "piQueue (taskList s) = map (\<lambda>i. \<lparr>task_id = i\<rparr>) [1..n - 1]"
    and t: "threads s = replicate (nat (sint hc)) AtWhile"
    by (auto simp: main_start_eq split: if_splits)
  have "sum_list (map weight (replicate k AtWhile)) = 5 * k" for k
    by (induction k) simp_all
  with q t nn show ?thesis
    by (simp add: work_def nat_sint_eq_unat)
qed

lemma mutex_inv_exec:
  "exec f sched s = Inr s' \<Longrightarrow> mutex_inv s \<Longrightarrow> mutex_inv s'"
proof (induction sched arbitrary: s)
  case Nil
  then show ?case by simp
next
  case (Cons i sched)
  then show ?case
    by (cases "thread_step f i s") (auto dest: mutex_inv_step)
qed

text \<open>
  Every run of the pool is finite, and it can go on until the join or a fault:
  a statement that changes the state uses up work, of which the start has
  \<open>10 * (n - 1) + 5 * hc\<close>; and while some worker has not returned, some worker
  can execute a statement.
\<close>

lemma pool_run_continues:
  assumes "main_start n hc = Inr s0" "exec f sched s0 = Inr s"
  shows "work s \<le> 10 * nat (n - 1) + 5 * unat hc \<and>
     (joined s \<or> (\<exists>i<length (threads s). moves f i s))"
proof -
  from pool_inv_main_start [OF assms(1), of f] have "mutex_inv s0"
    by (simp add: pool_inv_def)
  with assms(2) have m: "mutex_inv s" by (rule mutex_inv_exec)
  from assms(2) owner_inv_main_start [OF assms(1)] have o: "owner_inv s"
    by (rule owner_inv_exec)
  from work_exec [OF assms(2)] work_main_start [OF assms(1)]
  have "work s \<le> 10 * nat (n - 1) + 5 * unat hc" by simp
  moreover have "joined s \<or> (\<exists>i<length (threads s). moves f i s)"
    using pool_progress [OF m o, of f] by blast
  ultimately show ?thesis by simp
qed

section \<open>The task queue\<close>

lemma drain_all: "drain tq = Inr (piQueue tq, tq\<lparr>piQueue := []\<rparr>)"
proof (induction "piQueue tq" arbitrary: tq)
  case Nil
  then show ?case by (simp add: drain.simps isEmpty_def)
next
  case (Cons t ts)
  from Cons(2) have q: "piQueue tq = t # ts" by simp
  have "drain (tq\<lparr>piQueue := ts\<rparr>) = Inr (ts, tq\<lparr>piQueue := []\<rparr>)"
    using Cons(1) [of "tq\<lparr>piQueue := ts\<rparr>"] by simp
  then show ?case
    using q by (subst drain.simps) (simp add: isEmpty_def getTask_def pop_def)
qed

text \<open>
  Claim C5. The queue is first in, first out: tasks pushed in the order \<open>ts\<close> onto
  any queue are retrieved, by \<open>isEmpty\<close>, \<open>getTask\<close> and \<open>pop\<close>, after the tasks
  that were already there and in the order \<open>ts\<close>; nothing is lost and the queue
  ends empty.
\<close>

theorem TaskList_fifo:
  "drain (fold push ts tq) = Inr (piQueue tq @ ts, (fold push ts tq)\<lparr>piQueue := []\<rparr>)"
  using piQueue_fold_push [of "\<lambda>t. t" ts tq] by (simp add: drain_all)

text \<open>
  Claim C1. The class has no operation that tests for emptiness and removes the
  front in one critical section: the worker tests \<open>isEmpty\<close> at line 327 before
  it takes the mutex at line 330. With at least one task and two workers the
  following run exists: worker 0 handles all tasks but the last alone; both
  workers then find the queue non-empty; worker 0 takes the last task; worker 1
  takes the mutex and is at line 331, about to call \<open>front()\<close> on an empty queue.
\<close>

theorem isEmpty_then_pop_race:
  assumes "2 \<le> n" and "2 \<le> sint hc"
  shows "\<exists>s0 s. main_start n hc = Inr s0 \<and>
     exec f (replicate (10 * nat (n - 2)) 0 @ [0, 1, 0, 0, 0, 0, 0, 1, 1]) s0 = Inr s \<and>
     threads s ! 1 = AtGetTask \<and> queueMutex (taskList s) = Some 1 \<and>
     isEmpty (taskList s) \<and> getTask (taskList s) = Inl EmptyQueueAccess"
proof -
  from race_run [OF assms, of f] obtain s0 s where
    "main_start n hc = Inr s0"
    "exec f (replicate (10 * nat (n - 2)) 0 @ [0, 1, 0, 0, 0, 0, 0, 1, 1]) s0 = Inr s"
    "threads s ! 1 = AtGetTask" "queueMutex (taskList s) = Some 1" "piQueue (taskList s) = []"
    by blast
  then show ?thesis by (auto simp: isEmpty_def getTask_def)
qed

theorem isEmpty_then_pop_race_witness:
  "2 \<le> numDigitsPie \<and> 2 \<le> sint (2 :: 32 word) \<and>
   (\<exists>s0 s. main_start numDigitsPie 2 = Inr s0 \<and>
     exec (\<lambda>k. 0) (replicate (10 * nat (numDigitsPie - 2)) 0 @ [0, 1, 0, 0, 0, 0, 0, 1, 1]) s0
       = Inr s \<and>
     threads s ! 1 = AtGetTask \<and> queueMutex (taskList s) = Some 1 \<and>
     isEmpty (taskList s) \<and> getTask (taskList s) = Inl EmptyQueueAccess)"
proof -
  have h1: "2 \<le> numDigitsPie" by (simp add: numDigitsPie_def)
  have h2: "2 \<le> sint (2 :: 32 word)" by simp
  from isEmpty_then_pop_race [OF h1 h2, of "\<lambda>k. 0"] h1 h2 show ?thesis by blast
qed

text \<open>
  Claim C8. The same run, one statement further: worker 1 executes line 331 on
  the empty queue. The iteration it has begun removes no task, and the worker
  does not reach the test of line 327 again to find the queue empty and return.
\<close>

theorem worker_faults_on_empty_queue:
  assumes "2 \<le> n" and "2 \<le> sint hc"
  shows "\<exists>s0. main_start n hc = Inr s0 \<and>
     exec f (replicate (10 * nat (n - 2)) 0 @ [0, 1, 0, 0, 0, 0, 0, 1, 1, 1]) s0
       = Inl EmptyQueueAccess"
proof -
  from race_run [OF assms, of f] obtain s0 s where r:
    "main_start n hc = Inr s0"
    "exec f (replicate (10 * nat (n - 2)) 0 @ [0, 1, 0, 0, 0, 0, 0, 1, 1]) s0 = Inr s"
    "threads s ! 1 = AtGetTask" "piQueue (taskList s) = []"
    by blast
  from r(1) assms(2) have "1 < length (threads s0)"
    by (auto simp: main_start_eq split: if_splits)
  with length_threads_exec [OF r(2)] have "1 < length (threads s)" by simp
  with r(3,4) have "thread_step f 1 s = Inl EmptyQueueAccess"
    by (simp add: thread_step_def getTask_def)
  then have "exec f [1] s = Inl EmptyQueueAccess" by simp
  with r(2) have
    "exec f ((replicate (10 * nat (n - 2)) 0 @ [0, 1, 0, 0, 0, 0, 0, 1, 1]) @ [1]) s0
       = Inl EmptyQueueAccess"
    by (simp only: exec_append sum.case)
  with r(1) show ?thesis by auto
qed

theorem worker_faults_on_empty_queue_witness:
  "2 \<le> (2 :: int) \<and> 2 \<le> sint (2 :: 32 word) \<and>
   (\<exists>s0. main_start 2 2 = Inr s0 \<and>
     exec (\<lambda>k. 0) (replicate (10 * nat (2 - 2)) 0 @ [0, 1, 0, 0, 0, 0, 0, 1, 1, 1]) s0
       = Inl EmptyQueueAccess)"
proof -
  have h1: "2 \<le> (2 :: int)" by simp
  have h2: "2 \<le> sint (2 :: 32 word)" by simp
  from worker_faults_on_empty_queue [OF h1 h2, of "\<lambda>k. 0"] h1 h2 show ?thesis by blast
qed

section \<open>The result table\<close>

lemma pieMap_insertValue:
  "pieMap (insertValue k v pt) = [k \<mapsto> v] ++ pieMap pt"
  by (auto simp: insertValue_def map_add_def split: option.splits)

lemma hashMutex_insertValue [simp]: "hashMutex (insertValue k v pt) = hashMutex pt"
  by (simp add: insertValue_def split: option.splits)

lemma pieMap_insert_all: "pieMap (insert_all es pt) = map_of es ++ pieMap pt"
proof (induction es arbitrary: pt)
  case Nil
  then show ?case by (simp add: insert_all_def)
next
  case (Cons e es)
  obtain k v where e: "e = (k, v)" by (cases e)
  have "insert_all (e # es) pt = insert_all es (insertValue k v pt)"
    by (simp add: insert_all_def e)
  then have "pieMap (insert_all (e # es) pt) = map_of es ++ ([k \<mapsto> v] ++ pieMap pt)"
    by (simp add: Cons.IH pieMap_insertValue)
  also have "\<dots> = map_of (e # es) ++ pieMap pt"
    by (auto simp: e map_add_def split: option.splits)
  finally show ?case .
qed

lemma hashMutex_insert_all [simp]: "hashMutex (insert_all es pt) = hashMutex pt"
  by (induction es arbitrary: pt) (simp_all add: insert_all_def split: prod.splits)

lemma insert_all_init:
  "insert_all es PieTable_init = \<lparr>hashMutex = None, pieMap = map_of es\<rparr>"
proof -
  have "pieMap (insert_all es PieTable_init) = map_of es"
    by (simp add: pieMap_insert_all PieTable_init_def)
  moreover have "hashMutex (insert_all es PieTable_init) = None"
    by (simp add: PieTable_init_def)
  ultimately show ?thesis by (cases "insert_all es PieTable_init") simp
qed

text \<open>
  \<open>insertValue\<close> does not overwrite: after inserting 3 and then 4 at index 1,
  \<open>get\<close> returns 3.
\<close>

theorem insertValue_overwrite_counterexample:
  "fst (get 1 (insertValue 1 4 (insertValue 1 3 PieTable_init))) = 3 \<and>
   fst (get 1 (insertValue 1 4 (insertValue 1 3 PieTable_init))) \<noteq> 4"
  by (simp add: get_def insertValue_def PieTable_init_def)

text \<open>
  Claim C7, as the code has it. \<open>insertValue\<close> adds the entry when the index is
  absent and leaves the table as it is when the index is present, so that \<open>get\<close>
  returns the number of the first insertion for that index: after one call, the
  old number if there was one; after a sequence of calls on the new table, the
  first number the sequence has for the index (\<open>map_of\<close> finds the first pair),
  and 0 if it has none.
\<close>

theorem insertValue_keeps_first:
  "get k (insertValue k v pt) =
     (case pieMap pt k of
        None \<Rightarrow> (sint v, insertValue k v pt)
      | Some old \<Rightarrow> (sint old, pt)) \<and>
   fst (get k (insert_all es PieTable_init)) =
     (case map_of es k of None \<Rightarrow> 0 | Some v' \<Rightarrow> sint v')"
  by (simp add: get_def insertValue_def insert_all_init split: option.splits)

text \<open>
  Claim C10. For an index without entry, \<open>get\<close> returns 0 and adds the entry
  \<open>index \<mapsto> 0\<close>: the table after the call differs from the table before, and the
  number returned is the one returned for a stored 0.
\<close>

theorem get_missing_inserts_zero:
  assumes "pieMap pt index = None"
  shows "get index pt = (0, pt\<lparr>pieMap := (pieMap pt)(index \<mapsto> 0)\<rparr>) \<and>
     snd (get index pt) \<noteq> pt \<and>
     pieMap (snd (get index pt)) index = Some 0 \<and>
     fst (get index pt) = fst (get index (insertValue index 0 pt))"
proof -
  from assms have g: "get index pt = (0, pt\<lparr>pieMap := (pieMap pt)(index \<mapsto> 0)\<rparr>)"
    by (simp add: get_def)
  have "pieMap (pt\<lparr>pieMap := (pieMap pt)(index \<mapsto> 0)\<rparr>) index \<noteq> pieMap pt index"
    using assms by simp
  then have "pt\<lparr>pieMap := (pieMap pt)(index \<mapsto> 0)\<rparr> \<noteq> pt" by metis
  with g assms show ?thesis by (simp add: get_def insertValue_def)
qed

theorem get_missing_inserts_zero_witness:
  "pieMap PieTable_init 7 = None \<and>
   get 7 PieTable_init = (0, PieTable_init\<lparr>pieMap := (pieMap PieTable_init)(7 \<mapsto> 0)\<rparr>) \<and>
   snd (get 7 PieTable_init) \<noteq> PieTable_init \<and>
   pieMap (snd (get 7 PieTable_init)) 7 = Some 0 \<and>
   fst (get 7 PieTable_init) = fst (get 7 (insertValue 7 0 PieTable_init))"
proof -
  have h: "pieMap PieTable_init 7 = None" by (simp add: PieTable_init_def)
  from h get_missing_inserts_zero [OF h] show ?thesis by (rule conjI)
qed

text \<open>
  Where the contract \<open>get_spec\<close> reports \<open>KeyNotFound\<close>, \<open>get\<close> returns 0, which
  is also what it returns when 0 is stored.
\<close>

theorem get_missing_counterexample:
  "pieMap PieTable_init 7 = None \<and>
   get_spec 7 PieTable_init = Inl (KeyNotFound 7) \<and>
   fst (get 7 PieTable_init) = 0 \<and>
   fst (get 7 PieTable_init) = fst (get 7 (insertValue 7 0 PieTable_init))"
  by (simp add: get_def get_spec_def insertValue_def PieTable_init_def)

text \<open>
  Claim C3, as the code has it. For every index without entry, that is where
  the contract reports \<open>KeyNotFound\<close>, \<open>get\<close> does not fail: it returns 0, the
  number it returns for a stored digit 0.
\<close>

theorem get_missing_returns_zero:
  assumes "get_spec index pt = Inl (KeyNotFound index)"
  shows "pieMap pt index = None \<and> fst (get index pt) = 0 \<and>
     fst (get index pt) = fst (get index (insertValue index 0 pt))"
  using assms by (simp add: get_def get_spec_def insertValue_def split: option.splits)

theorem get_missing_returns_zero_witness:
  "get_spec 5 PieTable_init = Inl (KeyNotFound 5) \<and>
   pieMap PieTable_init 5 = None \<and> fst (get 5 PieTable_init) = 0 \<and>
   fst (get 5 PieTable_init) = fst (get 5 (insertValue 5 0 PieTable_init))"
proof -
  have h: "get_spec 5 PieTable_init = Inl (KeyNotFound 5)"
    by (simp add: get_spec_def PieTable_init_def)
  from h get_missing_returns_zero [OF h] show ?thesis by (rule conjI)
qed

section \<open>The output\<close>

lemma print_digits_present:
  assumes "\<forall>i\<in>set js. pieMap pt i \<noteq> None"
  shows "print_digits js pt out =
     (pt, out @ concat (map (\<lambda>i. show_int (sint (the (pieMap pt i)))) js))"
  using assms
proof (induction js arbitrary: out)
  case Nil
  then show ?case by simp
next
  case (Cons j js)
  then obtain v where "pieMap pt j = Some v" by auto
  with Cons show ?case by (simp add: get_def)
qed

lemma render_present:
  assumes "\<forall>i\<in>{1..n - 1}. pieMap pt i \<noteq> None"
  shows "render n pt =
     (pt, newline # ''3.'' @ concat (map (\<lambda>i. show_int (sint (the (pieMap pt i)))) [1..n - 1])
          @ [newline])"
  using assms by (simp add: render_def print_digits_present)

text \<open>
  Claim C4. When the entries \<open>es\<close>, one per index, cover every index from 1 to
  \<open>n - 1\<close>, the text written after the join is a line break, \<open>3.\<close>, the stored
  numbers in ascending order of their index, and a line break; and it is the
  same text when the entries are inserted in any other order \<open>es'\<close>.
\<close>

theorem render_index_order:
  assumes "{1..n - 1} \<subseteq> fst ` set es"
    and "distinct (map fst es)" and "mset es' = mset es"
  shows "snd (render n (insert_all es PieTable_init)) =
       newline # ''3.'' @ concat (map (\<lambda>i. show_int (sint (the (map_of es i)))) [1..n - 1])
       @ [newline] \<and>
     render n (insert_all es' PieTable_init) = render n (insert_all es PieTable_init)"
proof -
  from assms(3) have "mset (map fst es') = mset (map fst es)" by simp
  with assms(2) have d: "distinct (map fst es')"
    by (metis mset_eq_imp_distinct_iff)
  from assms(3) have "set es' = set es" by (rule mset_eq_setD)
  with assms(2) d have "map_of es' = map_of es"
    by (simp add: map_of_inject_set)
  then have eq: "insert_all es' PieTable_init = insert_all es PieTable_init"
    by (simp add: insert_all_init)
  from assms(1) have "\<forall>i\<in>{1..n - 1}. pieMap (insert_all es PieTable_init) i \<noteq> None"
    by (auto simp: insert_all_init weak_map_of_SomeI map_of_eq_None_iff)
  from render_present [OF this] eq show ?thesis
    by (simp add: insert_all_init)
qed

theorem render_index_order_witness:
  "{1..6 - 1} \<subseteq> fst ` set [(1 :: int, 3 :: 32 word), (2, 1), (3, 4), (4, 1), (5, 5)] \<and>
   distinct (map fst [(1 :: int, 3 :: 32 word), (2, 1), (3, 4), (4, 1), (5, 5)]) \<and>
   mset [(4 :: int, 1 :: 32 word), (2, 1), (5, 5), (1, 3), (3, 4)] =
     mset [(1, 3), (2, 1), (3, 4), (4, 1), (5, 5)] \<and>
   snd (render 6 (insert_all [(1, 3), (2, 1), (3, 4), (4, 1), (5, 5)] PieTable_init)) =
     newline # ''3.31415'' @ [newline] \<and>
   render 6 (insert_all [(4, 1), (2, 1), (5, 5), (1, 3), (3, 4)] PieTable_init) =
     render 6 (insert_all [(1, 3), (2, 1), (3, 4), (4, 1), (5, 5)] PieTable_init)"
proof -
  let ?es = "[(1 :: int, 3 :: 32 word), (2, 1), (3, 4), (4, 1), (5, 5)]"
  let ?es' = "[(4 :: int, 1 :: 32 word), (2, 1), (5, 5), (1, 3), (3, 4)]"
  have h1: "{1..6 - 1} \<subseteq> fst ` set ?es"
  proof
    fix i :: int
    assume "i \<in> {1..6 - 1}"
    then have "i = 1 \<or> i = 2 \<or> i = 3 \<or> i = 4 \<or> i = 5" by auto
    then show "i \<in> fst ` set ?es" by auto
  qed
  have h2: "distinct (map fst ?es)" by simp
  have h3: "mset ?es' = mset ?es" by (simp add: add_mset_commute)
  have up: "[1..5 :: int] = [1, 2, 3, 4, 5]" by (simp add: upto.simps)
  from render_index_order [OF h1 h2 h3] h1 h2 h3 show ?thesis
    by (simp add: up show_int_def)
qed

section \<open>The pool\<close>

text \<open>
  Whatever the schedule, a pool of at least one worker that reaches the join
  leaves the table that renders as the digits \<open>f 1\<close>, ..., \<open>f (n - 1)\<close>, in this
  order.
\<close>

lemma completed_run_output:
  assumes "main_start n hc = Inr s0" "exec f sched s0 = Inr s" "joined s" "hc \<noteq> 0"
  shows "render n (pieTable s) =
     (pieTable s,
      newline # ''3.'' @ concat (map (\<lambda>i. show_int (sint (f i))) [1..n - 1]) @ [newline])"
proof -
  from assms(1) have nn: "0 \<le> sint hc" and t0: "threads s0 = replicate (nat (sint hc)) AtWhile"
    by (auto simp: main_start_eq split: if_splits)
  from nn assms(4) have "unat hc \<noteq> 0" by (simp add: unat_eq_0)
  with nn have "nat (sint hc) \<noteq> 0" by (simp add: nat_sint_eq_unat)
  with t0 have "length (threads s0) \<noteq> 0" by simp
  with length_threads_exec [OF assms(2)] have ne: "threads s \<noteq> []" by auto
  have "pool_inv n f s"
    using pool_inv_exec [OF assms(2)] pool_inv_main_start [OF assms(1)] by blast
  from joined_table [OF this assms(3) ne]
  have m: "pieMap (pieTable s) = (\<lambda>k. if 1 \<le> k \<and> k < n then Some (f k) else None)" .
  then have "\<forall>i\<in>{1..n - 1}. pieMap (pieTable s) i \<noteq> None" by simp
  from render_present [OF this]
  have "render n (pieTable s) =
     (pieTable s,
      newline # ''3.'' @
      concat (map (\<lambda>i. show_int (sint (the (pieMap (pieTable s) i)))) [1..n - 1]) @ [newline])" .
  moreover have "map (\<lambda>i. show_int (sint (the (pieMap (pieTable s) i)))) [1..n - 1] =
      map (\<lambda>i. show_int (sint (f i))) [1..n - 1]"
    by (rule map_cong) (simp_all add: m)
  ultimately show ?thesis by simp
qed

text \<open>
  Claim C2. Lines 319 to 322 push the indices from 1 to \<open>n - 1\<close>: when the pool
  of at least one worker has run to the join, under any schedule, the table has
  an entry for exactly these \<open>n - 1\<close> indices, and none for \<open>n\<close>.
\<close>

theorem pool_run_entries:
  assumes "main_start n hc = Inr s0" and "exec f sched s0 = Inr s" and "joined s"
    and "hc \<noteq> 0"
  shows "dom (pieMap (pieTable s)) = {1..n - 1} \<and>
     card (dom (pieMap (pieTable s))) = nat (n - 1) \<and>
     pieMap (pieTable s) n = None"
proof -
  from assms(1) have nn: "0 \<le> sint hc" and t0: "threads s0 = replicate (nat (sint hc)) AtWhile"
    by (auto simp: main_start_eq split: if_splits)
  from nn assms(4) have "unat hc \<noteq> 0" by (simp add: unat_eq_0)
  with nn have "nat (sint hc) \<noteq> 0" by (simp add: nat_sint_eq_unat)
  with t0 have "length (threads s0) \<noteq> 0" by simp
  with length_threads_exec [OF assms(2)] have ne: "threads s \<noteq> []" by auto
  have "pool_inv n f s"
    using pool_inv_exec [OF assms(2)] pool_inv_main_start [OF assms(1)] by blast
  from joined_table [OF this assms(3) ne]
  have m: "pieMap (pieTable s) = (\<lambda>k. if 1 \<le> k \<and> k < n then Some (f k) else None)" .
  then have "dom (pieMap (pieTable s)) = {1..n - 1}"
    by (auto simp: dom_def)
  with m show ?thesis by simp
qed

theorem pool_run_entries_witness:
  "\<exists>s0 s. main_start 3 2 = Inr s0 \<and>
     exec (\<lambda>k. 7) [0, 1, 0, 1, 0, 0, 0, 0, 1, 1, 1, 1, 1, 1, 0, 1, 1, 0, 0, 0, 0, 1] s0 = Inr s \<and>
     joined s \<and> (2 :: 32 word) \<noteq> 0 \<and>
     dom (pieMap (pieTable s)) = {1..3 - 1} \<and>
     card (dom (pieMap (pieTable s))) = nat (3 - 1) \<and>
     pieMap (pieTable s) 3 = None"
proof -
  have "\<exists>s0 s. main_start 3 2 = Inr s0 \<and>
     exec (\<lambda>k. 7) [0, 1, 0, 1, 0, 0, 0, 0, 1, 1, 1, 1, 1, 1, 0, 1, 1, 0, 0, 0, 0, 1] s0 = Inr s \<and>
     joined s"
    by (simp add: main_start_eq thread_step_def isEmpty_def TaskList_lock_def getTask_def pop_def
          TaskList_unlock_def computePi_def PieTable_lock_def PieTable_unlock_def insertValue_def
          PieTable_init_def joined_def numeral_eq_Suc upto.simps)
  then obtain s0 s where h: "main_start 3 2 = Inr s0"
    "exec (\<lambda>k. 7) [0, 1, 0, 1, 0, 0, 0, 0, 1, 1, 1, 1, 1, 1, 0, 1, 1, 0, 0, 0, 0, 1] s0 = Inr s"
    "joined s"
    by blast
  have z: "(2 :: 32 word) \<noteq> 0" by simp
  from pool_run_entries [OF h z] h z show ?thesis by blast
qed

text \<open>
  With \<open>hardware_concurrency() = 0\<close>, the value for "not computable", the thread
  array is empty and the joins of line 350 return at once.
\<close>

theorem zero_workers_counterexample:
  "(case main_start numDigitsPie 0 of Inl e \<Rightarrow> False | Inr s \<Rightarrow> threads s = [] \<and> joined s)"
  by (simp add: main_start_eq joined_def)

text \<open>
  Claim C6, as the code has it. The pool has exactly as many workers as
  \<open>hardware_concurrency()\<close> returns, read once at line 312, each at the top of
  its loop; there is no default: the pool is empty exactly when that value is 0.
\<close>

theorem pool_size:
  assumes "0 \<le> sint hc"
  shows "\<exists>s. main_start n hc = Inr s \<and> length (threads s) = unat hc \<and>
     list_all (\<lambda>w. w = AtWhile) (threads s) \<and> (threads s = []) = (hc = 0)"
proof -
  from assms have "nat (sint hc) = unat hc" by (rule nat_sint_eq_unat)
  with assms show ?thesis
    by (simp add: main_start_eq list_all_length unat_eq_0)
qed

theorem pool_size_witness:
  "0 \<le> sint (4 :: 32 word) \<and>
   (\<exists>s. main_start numDigitsPie 4 = Inr s \<and> length (threads s) = unat (4 :: 32 word) \<and>
     list_all (\<lambda>w. w = AtWhile) (threads s) \<and> (threads s = []) = ((4 :: 32 word) = 0))"
proof -
  have h: "0 \<le> sint (4 :: 32 word)" by simp
  from h pool_size [OF h, of numDigitsPie] show ?thesis by (rule conjI)
qed

end
